theory Spec2Isabelle
  imports Complex_Main
begin

section \<open>Rectangles\<close>

text \<open>
  A rectangle is the value \<open>sg.box(x0, y0, x1, y1)\<close>: the four numbers it was built from.
  Two boxes are equal (Python's \<open>==\<close>, which \<open>list.remove\<close> uses) when they were built
  from the same four numbers. Coordinates are real numbers.
\<close>

datatype rect = Box real real real real

text \<open>\<open>rect.bounds\<close> is \<open>(minx, miny, maxx, maxy)\<close>; \<open>bounds[0]\<close> .. \<open>bounds[3]\<close> are named here.\<close>

fun minx :: "rect \<Rightarrow> real" where "minx (Box a b c d) = min a c"
fun miny :: "rect \<Rightarrow> real" where "miny (Box a b c d) = min b d"
fun maxx :: "rect \<Rightarrow> real" where "maxx (Box a b c d) = max a c"
fun maxy :: "rect \<Rightarrow> real" where "maxy (Box a b c d) = max b d"

definition bounds :: "rect \<Rightarrow> real \<times> real \<times> real \<times> real" where
  "bounds r = (minx r, miny r, maxx r, maxy r)"

text \<open>
  \<open>_is_near\<close>: \<open>rect1.buffer(0.1).distance(rect2.buffer(0.1)) < distance\<close>.
  The geometry library is not part of the repository; its buffered distance is the
  parameter \<open>bd\<close> of everything that calls \<open>_is_near\<close>.
\<close>

definition is_near :: "(rect \<Rightarrow> rect \<Rightarrow> real) \<Rightarrow> rect \<Rightarrow> rect \<Rightarrow> real \<Rightarrow> bool" where
  "is_near bd rect1 rect2 distance = (bd rect1 rect2 < distance)"

text \<open>
  Modelled from the spec: the library's \<open>buffer\<close> and \<open>distance\<close> are missing; by 4.1 of
  the spec the two boxes are grown by 0.1 and touching or overlapping boxes are
  at distance 0. The distance of two boxes is the Euclidean length of the gap between them.
\<close>

definition gap_x :: "rect \<Rightarrow> rect \<Rightarrow> real" where
  "gap_x a b = max 0 (max (minx a) (minx b) - min (maxx a) (maxx b))"

definition gap_y :: "rect \<Rightarrow> rect \<Rightarrow> real" where
  "gap_y a b = max 0 (max (miny a) (miny b) - min (maxy a) (maxy b))"

definition box_distance :: "rect \<Rightarrow> rect \<Rightarrow> real" where
  "box_distance a b = sqrt ((gap_x a b)\<^sup>2 + (gap_y a b)\<^sup>2)"

definition buffered_distance :: "rect \<Rightarrow> rect \<Rightarrow> real" where
  "buffered_distance a b = max 0 (box_distance a b - 0.2)"

text \<open>\<open>_is_horizontal_near\<close>, with its nested conditions in the source's order.\<close>

definition is_horizontal_near :: "rect \<Rightarrow> rect \<Rightarrow> real \<Rightarrow> bool" where
  "is_horizontal_near rect1 rect2 distance =
     (if \<bar>maxy rect1 - miny rect1\<bar> < 0.1 \<or> \<bar>maxy rect2 - miny rect2\<bar> < 0.1
      then (if \<bar>minx rect1 - minx rect2\<bar> < 0.1 \<and> \<bar>maxx rect1 - maxx rect2\<bar> < 0.1
            then \<bar>maxy rect1 - maxy rect2\<bar> < distance
            else False)
      else False)"

text \<open>The exceptions that reach the callers of the functions modelled here.\<close>

datatype py_error = TypeError | ValueError | GEOSException

text \<open>The minimal bounding box of two rectangles: the \<open>union\<close> of 4.1 of the spec.\<close>

definition bounding_box :: "rect \<Rightarrow> rect \<Rightarrow> rect" where
  "bounding_box rect1 rect2 =
     Box (min (minx rect1) (minx rect2)) (min (miny rect1) (miny rect2))
         (max (maxx rect1) (maxx rect2)) (max (maxy rect1) (maxy rect2))"

text \<open>
  \<open>_union_rects\<close>: \<open>sg.box(*(rect1.union(rect2).bounds))\<close>. The union is the geometry
  library's. When it is empty its bounds are not numbers and \<open>sg.box\<close> raises
  GEOSException, which nothing in the source catches; whether the union of two boxes is
  empty is the parameter \<open>union_empty\<close>. Otherwise the bounds of the union are the least and
  greatest coordinates of the two boxes.
\<close>

definition union_rects :: "(rect \<Rightarrow> rect \<Rightarrow> bool) \<Rightarrow> rect \<Rightarrow> rect \<Rightarrow> py_error + rect" where
  "union_rects union_empty rect1 rect2 =
     (if union_empty rect1 rect2 then Inl GEOSException
      else Inr (bounding_box rect1 rect2))"

text \<open>
  An instance of the parameter, for the evaluations below: the union of two equal boxes of
  zero width and zero height is empty, and no other union is.
\<close>

definition point_union_empty :: "rect \<Rightarrow> rect \<Rightarrow> bool" where
  "point_union_empty rect1 rect2 =
     (rect1 = rect2 \<and> minx rect1 = maxx rect1 \<and> miny rect1 = maxy rect1)"

section \<open>Merging rectangles\<close>

text \<open>
  The test of the inner loop of \<open>_merge_rects\<close>. \<open>horizontal_distance\<close> is \<open>None\<close> or a
  number; Python's \<open>horizontal_distance and ...\<close> is false for \<open>None\<close> and for 0.
\<close>

definition merge_cond :: "(rect \<Rightarrow> rect \<Rightarrow> real) \<Rightarrow> real \<Rightarrow> real option \<Rightarrow> rect \<Rightarrow> rect \<Rightarrow> bool" where
  "merge_cond bd distance horizontal_distance rect other_rect =
     (is_near bd rect other_rect distance \<or>
      (case horizontal_distance of
         None \<Rightarrow> False
       | Some h \<Rightarrow> h \<noteq> 0 \<and> is_horizontal_near rect other_rect h))"

text \<open>
  The \<open>for other_rect in rect_list\<close> loop. Python's list iterator keeps an index \<open>i\<close> into
  the list it walks and stops when \<open>i\<close> reaches the current length; the body removes from
  that same list. \<open>rect_list.remove(other_rect)\<close> deletes the first element equal to
  \<open>other_rect\<close>. The state is the current \<open>rect\<close>, the list, the index and \<open>merged\<close>. An
  exception of \<open>_union_rects\<close> ends the loop and is the result.
\<close>

function scan ::
  "(rect \<Rightarrow> rect \<Rightarrow> real) \<Rightarrow> (rect \<Rightarrow> rect \<Rightarrow> bool) \<Rightarrow> real \<Rightarrow> real option
     \<Rightarrow> rect \<Rightarrow> rect list \<Rightarrow> nat \<Rightarrow> bool \<Rightarrow> py_error + rect \<times> rect list \<times> bool" where
  "scan bd ue distance horizontal_distance rect rect_list i merged =
     (if i < length rect_list then
        (if merge_cond bd distance horizontal_distance rect (rect_list ! i)
         then (case union_rects ue rect (rect_list ! i) of
                 Inl e \<Rightarrow> Inl e
               | Inr rect' \<Rightarrow>
                   scan bd ue distance horizontal_distance rect'
                     (remove1 (rect_list ! i) rect_list) (Suc i) True)
         else scan bd ue distance horizontal_distance rect rect_list (Suc i) merged)
      else Inr (rect, rect_list, merged))"
  by pat_completeness auto
termination
  by (relation "measure (\<lambda>(bd, ue, distance, horizontal_distance, rect, rect_list, i, merged).
                  length rect_list - i)")
     (auto simp: length_remove1)

declare scan.simps [simp del]

lemma scan_shape:
  "scan bd ue d h rect l i m = Inr (rect', l', m') \<Longrightarrow>
     length l' \<le> length l \<and> (m' \<longrightarrow> m \<or> length l' < length l) \<and>
     (\<not> m' \<longrightarrow> \<not> m \<and> l' = l \<and> rect' = rect)"
proof (induction bd ue d h rect l i m arbitrary: rect' l' m' rule: scan.induct)
  case (1 bd ue d h rect l i m)
  show ?case
  proof (cases "i < length l")
    case False
    with "1.prems" show ?thesis by (simp add: scan.simps)
  next
    case True
    show ?thesis
    proof (cases "merge_cond bd d h rect (l ! i)")
      case c: True
      from True c "1.prems" obtain r where u: "union_rects ue rect (l ! i) = Inr r"
        and s: "scan bd ue d h r (remove1 (l ! i) l) (Suc i) True = Inr (rect', l', m')"
        by (simp add: scan.simps [of bd ue d h rect l i m] split: sum.splits)
      from "1.IH"(1) [OF True c u s] True show ?thesis
        by (auto simp: length_remove1)
    next
      case c: False
      from True c "1.prems"
      have s: "scan bd ue d h rect l (Suc i) m = Inr (rect', l', m')"
        by (simp add: scan.simps [of bd ue d h rect l i m])
      from "1.IH"(2) [OF True c s] show ?thesis .
    qed
  qed
qed

text \<open>
  The \<open>while rect_list\<close> loop: one pass. \<open>rect_list.pop(0)\<close> takes the head, the scan runs
  over what is left, and the rectangle is appended to \<open>new_rect_list\<close>.
\<close>

function merge_pass ::
  "(rect \<Rightarrow> rect \<Rightarrow> real) \<Rightarrow> (rect \<Rightarrow> rect \<Rightarrow> bool) \<Rightarrow> real \<Rightarrow> real option
     \<Rightarrow> rect list \<Rightarrow> rect list \<Rightarrow> bool \<Rightarrow> py_error + rect list \<times> bool" where
  "merge_pass bd ue distance horizontal_distance [] new_rect_list merged =
     Inr (new_rect_list, merged)"
| "merge_pass bd ue distance horizontal_distance (rect # rect_list) new_rect_list merged =
     (case scan bd ue distance horizontal_distance rect rect_list 0 merged of
        Inl e \<Rightarrow> Inl e
      | Inr (rect', rect_list', merged') \<Rightarrow>
          merge_pass bd ue distance horizontal_distance rect_list'
            (new_rect_list @ [rect']) merged')"
  by pat_completeness auto
termination
proof (relation "measure (\<lambda>(bd, ue, distance, horizontal_distance, rect_list, new_rect_list, merged).
                   length rect_list)", goal_cases)
  case 1
  show ?case by simp
next
  case (2 bd ue distance horizontal_distance rect rect_list new_rect_list merged x2 x y xa ya)
  then have "scan bd ue distance horizontal_distance rect rect_list 0 merged = Inr (x, xa, ya)"
    by simp
  from scan_shape [OF this] show ?case by simp
qed

text \<open>
  \<open>_merge_rects\<close>: \<open>merged = True; while merged: ...\<close>. Each round starts with
  \<open>merged = False\<close> and an empty \<open>new_rect_list\<close>. A loop that does not stop has no result;
  one that stops returns the list or raises.
\<close>

partial_function (option) merge_rects ::
  "(rect \<Rightarrow> rect \<Rightarrow> real) \<Rightarrow> (rect \<Rightarrow> rect \<Rightarrow> bool) \<Rightarrow> rect list \<Rightarrow> real \<Rightarrow> real option
     \<Rightarrow> (py_error + rect list) option" where
  "merge_rects bd ue rect_list distance horizontal_distance =
     (case merge_pass bd ue distance horizontal_distance rect_list [] False of
        Inl e \<Rightarrow> Some (Inl e)
      | Inr (new_rect_list, merged) \<Rightarrow>
          if merged then merge_rects bd ue new_rect_list distance horizontal_distance
          else Some (Inr new_rect_list))"

subsection \<open>Evaluating the modelled distance\<close>

lemma is_near_buffered:
  "is_near buffered_distance a b t \<longleftrightarrow>
     0 < t \<and> (gap_x a b)\<^sup>2 + (gap_y a b)\<^sup>2 < (t + 0.2)\<^sup>2"
proof -
  let ?s = "(gap_x a b)\<^sup>2 + (gap_y a b)\<^sup>2"
  have "is_near buffered_distance a b t \<longleftrightarrow> 0 < t \<and> sqrt ?s < t + 0.2"
    by (auto simp: is_near_def buffered_distance_def box_distance_def)
  also have "\<dots> \<longleftrightarrow> 0 < t \<and> ?s < (t + 0.2)\<^sup>2"
  proof (cases "0 < t")
    case True
    then have "sqrt ((t + 0.2)\<^sup>2) = t + 0.2" by simp
    then have "sqrt ?s < t + 0.2 \<longleftrightarrow> sqrt ?s < sqrt ((t + 0.2)\<^sup>2)" by simp
    also have "\<dots> \<longleftrightarrow> ?s < (t + 0.2)\<^sup>2" by (rule real_sqrt_less_iff)
    finally show ?thesis by simp
  qed simp
  finally show ?thesis .
qed

lemmas run_simps = scan.simps merge_cond_def is_near_buffered is_horizontal_near_def
  gap_x_def gap_y_def union_rects_def bounding_box_def point_union_empty_def power2_eq_square

subsection \<open>One pass never lengthens the list\<close>

lemma merge_pass_shape:
  "merge_pass bd ue d h l new m = Inr (out, m') \<Longrightarrow>
     length out \<le> length new + length l \<and> (m' \<longrightarrow> m \<or> length out < length new + length l) \<and>
     (\<not> m' \<longrightarrow> \<not> m \<and> out = new @ l)"
proof (induction bd ue d h l new m arbitrary: out m' rule: merge_pass.induct)
  case (1 bd ue d h new m)
  then show ?case by simp
next
  case (2 bd ue d h rect l new m)
  from "2.prems" obtain r1 l1 m1 where s: "scan bd ue d h rect l 0 m = Inr (r1, l1, m1)"
    and p: "merge_pass bd ue d h l1 (new @ [r1]) m1 = Inr (out, m')"
    by (auto split: sum.splits)
  have ih: "length out \<le> length (new @ [r1]) + length l1 \<and>
        (m' \<longrightarrow> m1 \<or> length out < length (new @ [r1]) + length l1) \<and>
        (\<not> m' \<longrightarrow> \<not> m1 \<and> out = (new @ [r1]) @ l1)"
    using "2.IH" [OF s refl refl p] .
  from scan_shape [OF s] ih show ?case by auto
qed

text \<open>
  The loop ends on every list, by induction on its length: a round that merges leaves a
  shorter list. When it returns a list, a full pass over that list merges nothing.
\<close>

lemma merge_rects_ends:
  "\<exists>res. merge_rects bd ue l d h = Some res \<and>
     (\<forall>r. res = Inr r \<longrightarrow> merge_pass bd ue d h r [] False = Inr (r, False) \<and>
                         length r \<le> length l)"
proof (induction l rule: measure_induct_rule [where f = length])
  case (less l)
  show ?case
  proof (cases "merge_pass bd ue d h l [] False")
    case (Inl e)
    then show ?thesis by (subst merge_rects.simps) simp
  next
    case (Inr p)
    obtain new m where p: "p = (new, m)" by (cases p)
    from merge_pass_shape [OF Inr [unfolded p]]
    have sh: "length new \<le> length l" "m \<longrightarrow> length new < length l" "\<not> m \<longrightarrow> new = l"
      by simp_all
    show ?thesis
    proof (cases m)
      case True
      with sh have "length new < length l" by simp
      from less.IH [OF this] this Inr p True show ?thesis
        by (subst merge_rects.simps) auto
    next
      case False
      with sh Inr p show ?thesis by (subst merge_rects.simps) simp
    qed
  qed
qed

section \<open>The scan order of one pass\<close>

text \<open>
  The scan as 4.2 of the spec words it: the rectangle is compared with every rectangle
  left in the pass, in order; a partner is merged and removed, and the scan goes on with
  the grown rectangle and the rest. It returns the rectangle and what is left for the pass.
\<close>

fun spec_scan ::
  "(rect \<Rightarrow> rect \<Rightarrow> real) \<Rightarrow> real \<Rightarrow> real option \<Rightarrow> rect \<Rightarrow> rect list \<Rightarrow> rect \<times> rect list" where
  "spec_scan bd distance horizontal_distance rect [] = (rect, [])"
| "spec_scan bd distance horizontal_distance rect (other_rect # rest) =
     (if merge_cond bd distance horizontal_distance rect other_rect
      then spec_scan bd distance horizontal_distance (bounding_box rect other_rect) rest
      else (case spec_scan bd distance horizontal_distance rect rest of
              (rect', kept) \<Rightarrow> (rect', other_rect # kept)))"

text \<open>
  C1: within a pass the grown rectangle is scanned against all the rest of the pass. The
  code removes the partner from the list its iterator walks, so the rectangle after a
  merged partner is not looked at in that scan. With two boxes 5 apart, a rule line 75 below
  them and aligned with them, and a box 5 to the right of the line, merged at distance 10
  and horizontal distance 100: the scan of the first box merges the second and passes over
  the line, which the grown box is horizontally near to; the line then merges with the
  fourth box and is a line no more. The code returns two boxes where the scan of the spec
  merges all four.
\<close>

theorem merge_scan_skips_next:
  "scan buffered_distance point_union_empty 10 (Some 100) (Box 0 0 100 20)
        [Box 0 25 100 45, Box 0 120 100 120, Box 105 115 130 125] 0 False
     = Inr (Box 0 0 100 45, [Box 0 120 100 120, Box 105 115 130 125], True) \<and>
   merge_cond buffered_distance 10 (Some 100) (Box 0 0 100 45) (Box 0 120 100 120) \<and>
   spec_scan buffered_distance 10 (Some 100) (Box 0 0 100 20)
        [Box 0 25 100 45, Box 0 120 100 120, Box 105 115 130 125]
     = (Box 0 0 130 125, []) \<and>
   merge_rects buffered_distance point_union_empty
        [Box 0 0 100 20, Box 0 25 100 45, Box 0 120 100 120, Box 105 115 130 125] 10 (Some 100)
     = Some (Inr [Box 0 0 100 45, Box 0 115 130 125])"
  by (simp add: merge_rects.simps run_simps)

section \<open>Termination of the merge\<close>

text \<open>
  C2: the outer loop repeats full passes until a pass merges nothing, on every finite
  list. Two equal boxes of zero width and height are near each other, their union is empty,
  \<open>_union_rects\<close> raises, and \<open>_merge_rects\<close> ends with the exception in its first pass: it
  does not reach a pass that merges nothing.
\<close>

theorem merge_rects_raises_on_equal_points:
  "merge_cond buffered_distance 10 (Some 100) (Box 5 5 5 5) (Box 5 5 5 5) \<and>
   union_rects point_union_empty (Box 5 5 5 5) (Box 5 5 5 5) = Inl GEOSException \<and>
   merge_pass buffered_distance point_union_empty 10 (Some 100)
     [Box 5 5 5 5, Box 5 5 5 5] [] False = Inl GEOSException \<and>
   merge_rects buffered_distance point_union_empty [Box 5 5 5 5, Box 5 5 5 5] 10 (Some 100)
     = Some (Inl GEOSException)"
  by (simp add: merge_rects.simps run_simps)

section \<open>Idempotence of the merge\<close>

text \<open>
  C3: \<open>merge(merge(R, d), d) == merge(R, d)\<close>. The merge ends on every list; whenever it
  returns a list, merging that list again, with the same distances, returns it unchanged.
\<close>

theorem merge_rects_idempotent:
  "(\<exists>res. merge_rects bd ue R d h = Some res) \<and>
   (\<forall>r. merge_rects bd ue R d h = Some (Inr r) \<longrightarrow> merge_rects bd ue r d h = Some (Inr r))"
proof (intro conjI allI impI)
  from merge_rects_ends [of bd ue R d h]
  show "\<exists>res. merge_rects bd ue R d h = Some res" by blast
next
  fix r assume "merge_rects bd ue R d h = Some (Inr r)"
  with merge_rects_ends [of bd ue R d h]
  have "merge_pass bd ue d h r [] False = Inr (r, False)" by auto
  then show "merge_rects bd ue r d h = Some (Inr r)"
    by (subst merge_rects.simps) simp
qed

theorem merge_rects_idempotent_witness:
  "merge_rects buffered_distance point_union_empty
     [Box 0 0 10 10, Box 12 0 22 10, Box 24 0 34 10] 5 None = Some (Inr [Box 0 0 34 10]) \<and>
   merge_rects buffered_distance point_union_empty [Box 0 0 34 10] 5 None
     = Some (Inr [Box 0 0 34 10])"
proof -
  have "merge_rects buffered_distance point_union_empty
     [Box 0 0 10 10, Box 12 0 22 10, Box 24 0 34 10] 5 None = Some (Inr [Box 0 0 34 10])"
    by (simp add: merge_rects.simps run_simps)
  with merge_rects_idempotent [of buffered_distance point_union_empty
         "[Box 0 0 10 10, Box 12 0 22 10, Box 24 0 34 10]" 5 None]
  show ?thesis by simp
qed

section \<open>Nearness of touching rectangles\<close>

definition height :: "rect \<Rightarrow> real" where
  "height r = maxy r - miny r"

definition width :: "rect \<Rightarrow> real" where
  "width r = maxx r - minx r"

text \<open>The two boxes share a point: their extents meet on both axes.\<close>

definition touches_or_overlaps :: "rect \<Rightarrow> rect \<Rightarrow> bool" where
  "touches_or_overlaps a b =
     (max (minx a) (minx b) \<le> min (maxx a) (maxx b) \<and>
      max (miny a) (miny b) \<le> min (maxy a) (maxy b))"

text \<open>
  C4 as stated, for every threshold, fails at threshold 0: two overlapping boxes are at
  buffered distance 0, and \<open>0 < 0\<close> is false.
\<close>

theorem near_touching_zero_threshold:
  "touches_or_overlaps (Box 0 0 10 10) (Box 5 5 15 15) \<and>
   buffered_distance (Box 0 0 10 10) (Box 5 5 15 15) = 0 \<and>
   \<not> is_near buffered_distance (Box 0 0 10 10) (Box 5 5 15 15) 0"
  by (simp add: touches_or_overlaps_def is_near_def buffered_distance_def box_distance_def
        gap_x_def gap_y_def)

text \<open>
  C4, amended: rectangles that touch or overlap are at buffered distance 0, and
  \<open>_is_near\<close> is true of them exactly for the thresholds greater than 0.
\<close>

theorem near_touching:
  assumes "touches_or_overlaps a b"
  shows "buffered_distance a b = 0 \<and> (is_near buffered_distance a b t \<longleftrightarrow> 0 < t)"
proof -
  from assms have "gap_x a b = 0" and "gap_y a b = 0"
    by (simp_all add: touches_or_overlaps_def gap_x_def gap_y_def)
  then have "buffered_distance a b = 0"
    by (simp add: buffered_distance_def box_distance_def)
  then show ?thesis by (simp add: is_near_def)
qed

theorem near_touching_witness:
  "touches_or_overlaps (Box 0 0 10 10) (Box 10 0 20 10) \<and>
   buffered_distance (Box 0 0 10 10) (Box 10 0 20 10) = 0 \<and>
   is_near buffered_distance (Box 0 0 10 10) (Box 10 0 20 10) (1/1000)"
proof -
  have t: "touches_or_overlaps (Box 0 0 10 10) (Box 10 0 20 10)"
    by (simp add: touches_or_overlaps_def)
  from near_touching [OF t, of "1/1000"] t show ?thesis by simp
qed

section \<open>Horizontal nearness\<close>

text \<open>
  C5 as stated, with a height of at most 0.1, fails for a box of height exactly 0.1 over an
  aligned box: every condition of the claim holds and \<open>_is_horizontal_near\<close> is false.
\<close>

theorem horizontal_near_height_boundary:
  "\<not> (is_horizontal_near (Box 0 0 10 0.1) (Box 0 5 10 15) 100 \<longleftrightarrow>
      (height (Box 0 0 10 0.1) \<le> 0.1 \<or> height (Box 0 5 10 15) \<le> 0.1) \<and>
      \<bar>minx (Box 0 0 10 0.1) - minx (Box 0 5 10 15)\<bar> \<le> 0.1 \<and>
      \<bar>maxx (Box 0 0 10 0.1) - maxx (Box 0 5 10 15)\<bar> \<le> 0.1 \<and>
      \<bar>maxy (Box 0 0 10 0.1) - maxy (Box 0 5 10 15)\<bar> < 100)"
  by (simp add: is_horizontal_near_def height_def)

lemma height_nonneg: "0 \<le> height r"
  by (cases r) (simp add: height_def)

text \<open>
  C5, amended: \<open>_is_horizontal_near\<close> is true exactly when one of the two heights is
  strictly less than 0.1, the left edges differ by strictly less than 0.1, so do the right
  edges, and the bottoms (\<open>bounds[3]\<close>) differ by less than the threshold.
\<close>

theorem is_horizontal_near_iff:
  "is_horizontal_near a b t \<longleftrightarrow>
     (height a < 0.1 \<or> height b < 0.1) \<and>
     \<bar>minx a - minx b\<bar> < 0.1 \<and> \<bar>maxx a - maxx b\<bar> < 0.1 \<and>
     \<bar>maxy a - maxy b\<bar> < t"
proof -
  have "\<bar>maxy a - miny a\<bar> = height a" "\<bar>maxy b - miny b\<bar> = height b"
    using height_nonneg [of a] height_nonneg [of b] by (simp_all add: height_def)
  then show ?thesis unfolding is_horizontal_near_def by auto
qed

theorem is_horizontal_near_iff_witness:
  "is_horizontal_near (Box 0 0 100 45) (Box 0 120 100 120) 100 \<and>
   height (Box 0 120 100 120) < 0.1 \<and>
   \<not> is_horizontal_near (Box 0 0 10 0.1) (Box 0 5 10 15) 100"
  using is_horizontal_near_iff [of "Box 0 0 100 45" "Box 0 120 100 120" 100]
    is_horizontal_near_iff [of "Box 0 0 10 0.1" "Box 0 5 10 15" 100]
  by (simp add: height_def)

section \<open>Adsorbing rectangles\<close>

text \<open>
  The inner loop of \<open>_adsorb_rects_to_rects\<close>: \<open>for index, rect in enumerate(target_rects)\<close>
  replaces the first target the source is near to by the union and breaks; the flag is
  \<open>adsorbed\<close>. An exception of \<open>_union_rects\<close> is the result.
\<close>

fun adsorb_scan ::
  "(rect \<Rightarrow> rect \<Rightarrow> real) \<Rightarrow> (rect \<Rightarrow> rect \<Rightarrow> bool) \<Rightarrow> real \<Rightarrow> rect \<Rightarrow> rect list
     \<Rightarrow> py_error + rect list \<times> bool" where
  "adsorb_scan bd ue distance text_area_rect [] = Inr ([], False)"
| "adsorb_scan bd ue distance text_area_rect (rect # rest) =
     (if is_near bd text_area_rect rect distance
      then (case union_rects ue text_area_rect rect of
              Inl e \<Rightarrow> Inl e
            | Inr rect' \<Rightarrow> Inr (rect' # rest, True))
      else (case adsorb_scan bd ue distance text_area_rect rest of
              Inl e \<Rightarrow> Inl e
            | Inr (rest', adsorbed) \<Rightarrow> Inr (rect # rest', adsorbed)))"

text \<open>The outer loop over \<open>source_rects\<close>, with \<open>new_source_rects\<close> and the targets as state.\<close>

fun adsorb_loop ::
  "(rect \<Rightarrow> rect \<Rightarrow> real) \<Rightarrow> (rect \<Rightarrow> rect \<Rightarrow> bool) \<Rightarrow> real \<Rightarrow> rect list \<Rightarrow> rect list \<Rightarrow> rect list
     \<Rightarrow> py_error + rect list \<times> rect list" where
  "adsorb_loop bd ue distance [] new_source_rects target_rects =
     Inr (new_source_rects, target_rects)"
| "adsorb_loop bd ue distance (text_area_rect # source_rects) new_source_rects target_rects =
     (case adsorb_scan bd ue distance text_area_rect target_rects of
        Inl e \<Rightarrow> Inl e
      | Inr (target_rects', adsorbed) \<Rightarrow>
          adsorb_loop bd ue distance source_rects
            (if adsorbed then new_source_rects else new_source_rects @ [text_area_rect])
            target_rects')"

definition adsorb_rects_to_rects ::
  "(rect \<Rightarrow> rect \<Rightarrow> real) \<Rightarrow> (rect \<Rightarrow> rect \<Rightarrow> bool) \<Rightarrow> rect list \<Rightarrow> rect list \<Rightarrow> real
     \<Rightarrow> py_error + rect list \<times> rect list" where
  "adsorb_rects_to_rects bd ue source_rects target_rects distance =
     adsorb_loop bd ue distance source_rects [] target_rects"

text \<open>One rectangle spatially contains another: its bounds enclose the other's bounds.\<close>

definition covers :: "rect \<Rightarrow> rect \<Rightarrow> bool" where
  "covers outer inner =
     (minx outer \<le> minx inner \<and> miny outer \<le> miny inner \<and>
      maxx inner \<le> maxx outer \<and> maxy inner \<le> maxy outer)"

text \<open>
  The source at position \<open>k\<close> finds no target near when its turn comes, that is among the
  targets as the sources before it left them.
\<close>

definition unmatched_at ::
  "(rect \<Rightarrow> rect \<Rightarrow> real) \<Rightarrow> (rect \<Rightarrow> rect \<Rightarrow> bool) \<Rightarrow> rect list \<Rightarrow> rect list \<Rightarrow> real \<Rightarrow> nat
     \<Rightarrow> bool" where
  "unmatched_at bd ue source_rects target_rects distance k =
     (case adsorb_rects_to_rects bd ue (take k source_rects) target_rects distance of
        Inl e \<Rightarrow> False
      | Inr (u, tg) \<Rightarrow> list_all (\<lambda>t. \<not> is_near bd (source_rects ! k) t distance) tg)"

lemma adsorb_scan_miss:
  "list_all (\<lambda>t. \<not> is_near bd s t d) ts \<Longrightarrow> adsorb_scan bd ue d s ts = Inr (ts, False)"
  by (induction ts) auto

lemma adsorb_scan_hit:
  "\<not> list_all (\<lambda>t. \<not> is_near bd s t d) ts \<Longrightarrow>
     \<exists>i<length ts. is_near bd s (ts ! i) d \<and> (\<forall>j<i. \<not> is_near bd s (ts ! j) d) \<and>
        adsorb_scan bd ue d s ts =
          (case union_rects ue s (ts ! i) of
             Inl e \<Rightarrow> Inl e
           | Inr r \<Rightarrow> Inr (ts[i := r], True))"
proof (induction ts)
  case Nil
  then show ?case by simp
next
  case (Cons t ts)
  show ?case
  proof (cases "is_near bd s t d")
    case True
    then show ?thesis by (intro exI [of _ 0]) (auto split: sum.splits)
  next
    case False
    with Cons.prems have "\<not> list_all (\<lambda>t. \<not> is_near bd s t d) ts" by simp
    from Cons.IH [OF this] obtain i where i: "i < length ts" "is_near bd s (ts ! i) d"
      "\<forall>j<i. \<not> is_near bd s (ts ! j) d"
      "adsorb_scan bd ue d s ts =
         (case union_rects ue s (ts ! i) of Inl e \<Rightarrow> Inl e | Inr r \<Rightarrow> Inr (ts[i := r], True))"
      by blast
    have "\<forall>j<Suc i. \<not> is_near bd s ((t # ts) ! j) d"
      using False i(3) by (auto simp: less_Suc_eq_0_disj)
    with i False show ?thesis
      by (intro exI [of _ "Suc i"]) (auto split: sum.splits)
  qed
qed

lemma adsorb_loop_append:
  "adsorb_loop bd ue d (xs @ ys) new ts =
     (case adsorb_loop bd ue d xs new ts of
        Inl e \<Rightarrow> Inl e
      | Inr (new', ts') \<Rightarrow> adsorb_loop bd ue d ys new' ts')"
  by (induction xs arbitrary: new ts) (auto split: sum.splits prod.splits)

lemma adsorb_snoc:
  "adsorb_rects_to_rects bd ue (ss @ [s]) ts d =
     (case adsorb_rects_to_rects bd ue ss ts d of
        Inl e \<Rightarrow> Inl e
      | Inr (u, tg) \<Rightarrow>
          (case adsorb_scan bd ue d s tg of
             Inl e \<Rightarrow> Inl e
           | Inr (tg', adsorbed) \<Rightarrow> Inr (if adsorbed then u else u @ [s], tg')))"
  by (simp add: adsorb_rects_to_rects_def adsorb_loop_append split: sum.splits prod.splits)

text \<open>One more source: what the call returns on \<open>ss @ [s]\<close>, from what it returns on \<open>ss\<close>.\<close>

lemma adsorb_step:
  "adsorb_rects_to_rects bd ue (ss @ [s]) ts d =
     (case adsorb_rects_to_rects bd ue ss ts d of
        Inl e \<Rightarrow> Inl e
      | Inr (u, tg) \<Rightarrow>
          if list_all (\<lambda>t. \<not> is_near bd s t d) tg then Inr (u @ [s], tg)
          else (case adsorb_scan bd ue d s tg of
                  Inl e \<Rightarrow> Inl e
                | Inr (tg', adsorbed) \<Rightarrow> Inr (u, tg')))"
proof (cases "adsorb_rects_to_rects bd ue ss ts d")
  case (Inl e)
  then show ?thesis by (simp add: adsorb_snoc)
next
  case (Inr p)
  obtain u tg where p: "p = (u, tg)" by (cases p)
  show ?thesis
  proof (cases "list_all (\<lambda>t. \<not> is_near bd s t d) tg")
    case True
    from adsorb_scan_miss [OF True] Inr p True show ?thesis by (simp add: adsorb_snoc)
  next
    case False
    from adsorb_scan_hit [OF False, of ue] obtain i where
      sc: "adsorb_scan bd ue d s tg =
             (case union_rects ue s (tg ! i) of Inl e \<Rightarrow> Inl e | Inr r \<Rightarrow> Inr (tg[i := r], True))"
      by blast
    show ?thesis
    proof (cases "union_rects ue s (tg ! i)")
      case (Inl e)
      with sc Inr p False show ?thesis by (simp add: adsorb_snoc)
    next
      case r: (Inr r)
      with sc Inr p False show ?thesis by (simp add: adsorb_snoc)
    qed
  qed
qed

lemma unmatched_at_append:
  "k < length ss \<Longrightarrow> unmatched_at bd ue (ss @ ys) ts d k = unmatched_at bd ue ss ts d k"
  by (auto simp: unmatched_at_def nth_append split: sum.splits)

lemma adsorb_unmatched:
  "adsorb_rects_to_rects bd ue ss ts d = Inr (u, ts') \<Longrightarrow>
     u = map ((!) ss) (filter (unmatched_at bd ue ss ts d) [0..<length ss])"
proof (induction ss arbitrary: u ts' rule: rev_induct)
  case Nil
  then show ?case by (simp add: adsorb_rects_to_rects_def)
next
  case (snoc s ss)
  from snoc.prems obtain u0 tg where st: "adsorb_rects_to_rects bd ue ss ts d = Inr (u0, tg)"
    by (auto simp: adsorb_step [of bd ue ss s] split: sum.splits)
  from snoc.prems st
  have u: "u = (if list_all (\<lambda>t. \<not> is_near bd s t d) tg then u0 @ [s] else u0)"
    by (auto simp: adsorb_step [of bd ue ss s] split: sum.splits if_splits)
  have last: "unmatched_at bd ue (ss @ [s]) ts d (length ss)
                \<longleftrightarrow> list_all (\<lambda>t. \<not> is_near bd s t d) tg"
    by (simp add: unmatched_at_def st)
  have f: "filter (unmatched_at bd ue (ss @ [s]) ts d) [0..<length ss]
             = filter (unmatched_at bd ue ss ts d) [0..<length ss]"
    by (rule filter_cong) (simp_all add: unmatched_at_append)
  have m: "map ((!) (ss @ [s])) (filter (unmatched_at bd ue ss ts d) [0..<length ss])
             = map ((!) ss) (filter (unmatched_at bd ue ss ts d) [0..<length ss])"
    by (rule map_cong) (auto simp: nth_append)
  from snoc.IH [OF st]
  have u0: "u0 = map ((!) ss) (filter (unmatched_at bd ue ss ts d) [0..<length ss])" .
  show ?case
    by (simp add: u last f m) (simp add: u0 [symmetric])
qed

text \<open>
  C6: with no source the call returns the given targets and no unmatched source. Then,
  source by source: once the call has raised it raises; a source with no near target among
  the targets as they stand is appended to the unmatched output and the targets stay; any
  other source is merged into the first target it is near to, which is replaced in place by
  the union (or the union raises and so does the call), and the unmatched output stays.
  When the call returns, its unmatched output lists, by position and in order, exactly the
  sources that had no near target at their turn.
\<close>

theorem adsorb_conserves_sources:
  "adsorb_rects_to_rects bd ue [] ts d = Inr ([], ts) \<and>
   (\<forall>k<length ss.
      case adsorb_rects_to_rects bd ue (take k ss) ts d of
        Inl e \<Rightarrow> adsorb_rects_to_rects bd ue (take (Suc k) ss) ts d = Inl e
      | Inr (u, tg) \<Rightarrow>
          (if list_all (\<lambda>t. \<not> is_near bd (ss ! k) t d) tg
           then adsorb_rects_to_rects bd ue (take (Suc k) ss) ts d = Inr (u @ [ss ! k], tg)
           else (\<exists>i<length tg.
                   is_near bd (ss ! k) (tg ! i) d \<and>
                   (\<forall>j<i. \<not> is_near bd (ss ! k) (tg ! j) d) \<and>
                   adsorb_rects_to_rects bd ue (take (Suc k) ss) ts d
                     = (case union_rects ue (ss ! k) (tg ! i) of
                          Inl e \<Rightarrow> Inl e
                        | Inr r \<Rightarrow> Inr (u, tg[i := r]))))) \<and>
   (\<forall>u ts'. adsorb_rects_to_rects bd ue ss ts d = Inr (u, ts') \<longrightarrow>
      u = map ((!) ss) (filter (unmatched_at bd ue ss ts d) [0..<length ss]))"
proof (intro conjI allI impI)
  show "adsorb_rects_to_rects bd ue [] ts d = Inr ([], ts)"
    by (simp add: adsorb_rects_to_rects_def)
next
  fix u ts' assume "adsorb_rects_to_rects bd ue ss ts d = Inr (u, ts')"
  then show "u = map ((!) ss) (filter (unmatched_at bd ue ss ts d) [0..<length ss])"
    by (rule adsorb_unmatched)
next
  fix k assume k: "k < length ss"
  then have tk: "take (Suc k) ss = take k ss @ [ss ! k]"
    by (simp add: take_Suc_conv_app_nth)
  show "case adsorb_rects_to_rects bd ue (take k ss) ts d of
        Inl e \<Rightarrow> adsorb_rects_to_rects bd ue (take (Suc k) ss) ts d = Inl e
      | Inr (u, tg) \<Rightarrow>
          (if list_all (\<lambda>t. \<not> is_near bd (ss ! k) t d) tg
           then adsorb_rects_to_rects bd ue (take (Suc k) ss) ts d = Inr (u @ [ss ! k], tg)
           else (\<exists>i<length tg.
                   is_near bd (ss ! k) (tg ! i) d \<and>
                   (\<forall>j<i. \<not> is_near bd (ss ! k) (tg ! j) d) \<and>
                   adsorb_rects_to_rects bd ue (take (Suc k) ss) ts d
                     = (case union_rects ue (ss ! k) (tg ! i) of
                          Inl e \<Rightarrow> Inl e
                        | Inr r \<Rightarrow> Inr (u, tg[i := r]))))"
  proof (cases "adsorb_rects_to_rects bd ue (take k ss) ts d")
    case (Inl e)
    then show ?thesis by (simp add: tk adsorb_step)
  next
    case (Inr p)
    obtain u tg where p: "p = (u, tg)" by (cases p)
    show ?thesis
    proof (cases "list_all (\<lambda>t. \<not> is_near bd (ss ! k) t d) tg")
      case True
      with Inr p show ?thesis by (simp add: tk adsorb_step)
    next
      case False
      from adsorb_scan_hit [OF False, of ue] obtain i where i: "i < length tg"
        "is_near bd (ss ! k) (tg ! i) d" "\<forall>j<i. \<not> is_near bd (ss ! k) (tg ! j) d"
        and sc: "adsorb_scan bd ue d (ss ! k) tg =
           (case union_rects ue (ss ! k) (tg ! i) of
              Inl e \<Rightarrow> Inl e
            | Inr r \<Rightarrow> Inr (tg[i := r], True))"
        by blast
      have "adsorb_rects_to_rects bd ue (take (Suc k) ss) ts d
              = (case union_rects ue (ss ! k) (tg ! i) of
                   Inl e \<Rightarrow> Inl e
                 | Inr r \<Rightarrow> Inr (u, tg[i := r]))"
        using Inr p False sc by (simp add: tk adsorb_step split: sum.splits)
      with i Inr p False show ?thesis by auto
    qed
  qed
qed

text \<open>
  Two targets and two sources at distance 5: the first source is 2 away from the second
  target only and is merged into it; the second source is far from both and stays.
\<close>

theorem adsorb_conserves_sources_witness:
  "adsorb_rects_to_rects buffered_distance point_union_empty
      [] [Box 0 0 50 50, Box 100 0 150 50] 5
     = Inr ([], [Box 0 0 50 50, Box 100 0 150 50]) \<and>
   adsorb_rects_to_rects buffered_distance point_union_empty
      [Box 152 10 160 20] [Box 0 0 50 50, Box 100 0 150 50] 5
     = Inr ([], [Box 0 0 50 50, Box 100 0 160 50]) \<and>
   adsorb_rects_to_rects buffered_distance point_union_empty
      [Box 152 10 160 20, Box 300 300 310 310] [Box 0 0 50 50, Box 100 0 150 50] 5
     = Inr ([Box 300 300 310 310], [Box 0 0 50 50, Box 100 0 160 50]) \<and>
   \<not> unmatched_at buffered_distance point_union_empty
      [Box 152 10 160 20, Box 300 300 310 310] [Box 0 0 50 50, Box 100 0 150 50] 5 0 \<and>
   unmatched_at buffered_distance point_union_empty
      [Box 152 10 160 20, Box 300 300 310 310] [Box 0 0 50 50, Box 100 0 150 50] 5 1"
  using adsorb_conserves_sources [of buffered_distance point_union_empty
      "[Box 0 0 50 50, Box 100 0 150 50]" 5 "[Box 152 10 160 20, Box 300 300 310 310]"]
  by (simp add: adsorb_rects_to_rects_def unmatched_at_def run_simps)

lemma covers_refl: "covers r r"
  by (simp add: covers_def)

lemma covers_trans: "covers a b \<Longrightarrow> covers b c \<Longrightarrow> covers a c"
  by (auto simp: covers_def)

lemma covers_bounding_box: "covers (bounding_box s t) t" "covers (bounding_box s t) s"
  by (cases s; cases t; simp add: covers_def bounding_box_def; linarith)+

lemma union_rects_Inr: "union_rects ue s t = Inr r \<Longrightarrow> r = bounding_box s t"
  by (simp add: union_rects_def split: if_splits)

text \<open>
  C10: the updated target list is as long as the input target list, and at each position
  its rectangle contains the input target of that position: it is that target, or the union
  of a source with a rectangle containing that target.
\<close>

theorem adsorb_targets_grow:
  "adsorb_rects_to_rects bd ue ss ts d = Inr (u, ts') \<Longrightarrow>
     length ts' = length ts \<and>
     (\<forall>i<length ts.
        covers (ts' ! i) (ts ! i) \<and>
        (ts' ! i = ts ! i \<or>
         (\<exists>s\<in>set ss. \<exists>r. union_rects ue s r = Inr (ts' ! i) \<and> covers r (ts ! i))))"
proof (induction ss arbitrary: u ts' rule: rev_induct)
  case Nil
  then show ?case by (simp add: adsorb_rects_to_rects_def covers_refl)
next
  case (snoc s ss)
  from snoc.prems obtain u0 tg where st: "adsorb_rects_to_rects bd ue ss ts d = Inr (u0, tg)"
    by (auto simp: adsorb_step [of bd ue ss s] split: sum.splits)
  from snoc.IH [OF st] have len: "length tg = length ts"
    and ih: "\<And>i. i < length ts \<Longrightarrow> covers (tg ! i) (ts ! i) \<and>
               (tg ! i = ts ! i \<or>
                (\<exists>s\<in>set ss. \<exists>r. union_rects ue s r = Inr (tg ! i) \<and> covers r (ts ! i)))"
    by simp_all
  have shape: "ts' = tg \<or>
      (\<exists>i<length tg. \<exists>r. union_rects ue s (tg ! i) = Inr r \<and> ts' = tg[i := r])"
  proof (cases "list_all (\<lambda>t. \<not> is_near bd s t d) tg")
    case True
    with snoc.prems st show ?thesis by (simp add: adsorb_step [of bd ue ss s])
  next
    case False
    from adsorb_scan_hit [OF False, of ue] obtain i where i: "i < length tg"
      and sc: "adsorb_scan bd ue d s tg =
           (case union_rects ue s (tg ! i) of
              Inl e \<Rightarrow> Inl e
            | Inr r \<Rightarrow> Inr (tg[i := r], True))"
      by blast
    from snoc.prems st False sc
    have "\<exists>r. union_rects ue s (tg ! i) = Inr r \<and> ts' = tg[i := r]"
      by (auto simp: adsorb_step [of bd ue ss s] split: sum.splits)
    with i show ?thesis by blast
  qed
  then have len': "length ts' = length ts" using len by auto
  have "\<And>i. i < length ts \<Longrightarrow> covers (ts' ! i) (ts ! i) \<and>
               (ts' ! i = ts ! i \<or>
                (\<exists>x\<in>set (ss @ [s]). \<exists>r. union_rects ue x r = Inr (ts' ! i) \<and> covers r (ts ! i)))"
  proof -
    fix i assume i: "i < length ts"
    from shape show "covers (ts' ! i) (ts ! i) \<and>
               (ts' ! i = ts ! i \<or>
                (\<exists>x\<in>set (ss @ [s]). \<exists>r. union_rects ue x r = Inr (ts' ! i) \<and> covers r (ts ! i)))"
    proof
      assume "ts' = tg"
      with ih [OF i] show ?thesis by auto
    next
      assume "\<exists>j<length tg. \<exists>r. union_rects ue s (tg ! j) = Inr r \<and> ts' = tg[j := r]"
      then obtain j r where j: "j < length tg" "union_rects ue s (tg ! j) = Inr r"
        "ts' = tg[j := r]" by blast
      show ?thesis
      proof (cases "i = j")
        case True
        with j have e: "ts' ! i = r" and un: "union_rects ue s (tg ! i) = Inr (ts' ! i)" by simp_all
        from ih [OF i] have c: "covers (tg ! i) (ts ! i)" by simp
        from union_rects_Inr [OF un] have "ts' ! i = bounding_box s (tg ! i)" .
        with covers_trans [OF covers_bounding_box(1) c] have "covers (ts' ! i) (ts ! i)"
          by simp
        with un c show ?thesis by auto
      next
        case False
        with j have "ts' ! i = tg ! i" by simp
        with ih [OF i] show ?thesis by auto
      qed
    qed
  qed
  with len' show ?case by simp
qed

theorem adsorb_targets_grow_witness:
  "adsorb_rects_to_rects buffered_distance point_union_empty
      [Box 152 10 160 20, Box 300 300 310 310] [Box 0 0 50 50, Box 100 0 150 50] 5
     = Inr ([Box 300 300 310 310], [Box 0 0 50 50, Box 100 0 160 50]) \<and>
   length [Box 0 0 50 50, Box 100 0 160 50] = length [Box 0 0 50 50, Box 100 0 150 50] \<and>
   covers (Box 0 0 50 50) (Box 0 0 50 50) \<and>
   covers (Box 100 0 160 50) (Box 100 0 150 50) \<and>
   union_rects point_union_empty (Box 152 10 160 20) (Box 100 0 150 50)
     = Inr (Box 100 0 160 50)"
proof -
  have r: "adsorb_rects_to_rects buffered_distance point_union_empty
      [Box 152 10 160 20, Box 300 300 310 310] [Box 0 0 50 50, Box 100 0 150 50] 5
     = Inr ([Box 300 300 310 310], [Box 0 0 50 50, Box 100 0 160 50])"
    by (simp add: adsorb_rects_to_rects_def run_simps)
  from adsorb_targets_grow [OF r] r show ?thesis
    by (simp add: run_simps covers_def)
qed

section \<open>The page pipeline\<close>

text \<open>
  What \<open>_parse_rects\<close> reads of a page: the \<open>rect\<close> of each drawing, the \<open>bbox\<close> of each
  image, and of each text block its four coordinates and its text.
\<close>

type_synonym quad = "real \<times> real \<times> real \<times> real"

record page =
  get_drawings :: "quad list"
  get_image_info :: "quad list"
  get_text_blocks :: "(quad \<times> string) list"

text \<open>\<open>sg.box(*drawing['rect'])\<close>, \<open>sg.box(*image['bbox'])\<close>, \<open>sg.box(*x[:4])\<close>.\<close>

fun box :: "quad \<Rightarrow> rect" where
  "box (x0, y0, x1, y1) = Box x0 y0 x1 y1"

fun is_short_line :: "quad \<Rightarrow> bool" where
  "is_short_line (x0, y0, x1, y1) = (\<bar>y1 - y0\<bar> < 1 \<and> \<bar>x1 - x0\<bar> < 30)"

text \<open>\<open>str.split\<close> on one character: at least one piece, one more for each separator.\<close>

fun split_on :: "char \<Rightarrow> string \<Rightarrow> string list" where
  "split_on sep [] = [[]]"
| "split_on sep (c # cs) =
     (if c = sep then [] # split_on sep cs
      else (case split_on sep cs of
              [] \<Rightarrow> [[c]]
            | w # ws \<Rightarrow> (c # w) # ws))"

definition is_large_content :: "quad \<times> string \<Rightarrow> bool" where
  "is_large_content x =
     (real (length (snd x)) / real (max 1 (length (split_on (CHR 0x0A) (snd x)))) > 5)"

text \<open>
  \<open>_parse_rects\<close>. The validity test of the geometry library
  (\<open>explain_validity(rect) == 'Valid Geometry'\<close>) is the parameter \<open>valid_geometry\<close>. The
  unmatched sources of the two adsorptions are dropped, as in the source. An exception of
  a merge or an adsorption is the result.
\<close>

definition parse_rects ::
  "(rect \<Rightarrow> rect \<Rightarrow> real) \<Rightarrow> (rect \<Rightarrow> rect \<Rightarrow> bool) \<Rightarrow> (rect \<Rightarrow> bool) \<Rightarrow> page
     \<Rightarrow> (py_error + quad list) option" where
  "parse_rects bd ue valid_geometry page =
     (let drawings = filter (\<lambda>drawing. \<not> is_short_line drawing) (get_drawings page);
          rect_list = map box drawings;
          image_rects = map box (get_image_info page);
          rect_list = rect_list @ image_rects
      in case merge_rects bd ue rect_list 10 (Some 100) of
           None \<Rightarrow> None
         | Some (Inl e) \<Rightarrow> Some (Inl e)
         | Some (Inr merged_rects) \<Rightarrow>
             (let merged_rects = filter valid_geometry merged_rects;
                  small_text_area_rects =
                    map (\<lambda>x. box (fst x)) (filter (\<lambda>x. \<not> is_large_content x) (get_text_blocks page));
                  large_text_area_rects =
                    map (\<lambda>x. box (fst x)) (filter is_large_content (get_text_blocks page))
              in case adsorb_rects_to_rects bd ue large_text_area_rects merged_rects 0.1 of
                   Inl e \<Rightarrow> Some (Inl e)
                 | Inr (unmatched_large, merged_rects) \<Rightarrow>
                     (case adsorb_rects_to_rects bd ue small_text_area_rects merged_rects 5 of
                        Inl e \<Rightarrow> Some (Inl e)
                      | Inr (unmatched_small, merged_rects) \<Rightarrow>
                          (case merge_rects bd ue merged_rects 10 None of
                             None \<Rightarrow> None
                           | Some (Inl e) \<Rightarrow> Some (Inl e)
                           | Some (Inr merged_rects) \<Rightarrow>
                               Some (Inr (map bounds
                                 (filter (\<lambda>rect. maxx rect - minx rect > 20 \<and>
                                                 maxy rect - miny rect > 20)
                                    merged_rects)))))))"

lemma merge_rects_Some: "\<exists>res. merge_rects bd ue l d h = Some res"
  using merge_rects_ends [of bd ue l d h] by blast

text \<open>
  C7: \<open>_parse_rects\<close> ends on every page, and whenever it returns a list, every rectangle
  of the list is wider than 20 and higher than 20.
\<close>

theorem parse_rects_large_only:
  "(\<exists>res. parse_rects bd ue valid_geometry page = Some res) \<and>
   (\<forall>out. parse_rects bd ue valid_geometry page = Some (Inr out) \<longrightarrow>
      (\<forall>(x0, y0, x1, y1)\<in>set out. x1 - x0 > 20 \<and> y1 - y0 > 20))"
proof (intro conjI allI impI)
  show "\<exists>res. parse_rects bd ue valid_geometry page = Some res"
    unfolding parse_rects_def Let_def
    using merge_rects_Some [of bd ue _ 10 "Some 100"] merge_rects_Some [of bd ue _ 10 None]
    by (auto split: option.splits sum.splits prod.splits) (metis option.distinct(1))+
next
  fix out assume "parse_rects bd ue valid_geometry page = Some (Inr out)"
  then obtain m where "out = map bounds
      (filter (\<lambda>rect. maxx rect - minx rect > 20 \<and> maxy rect - miny rect > 20) m)"
    unfolding parse_rects_def Let_def
    by (auto split: option.splits sum.splits prod.splits)
  then show "\<forall>(x0, y0, x1, y1)\<in>set out. x1 - x0 > 20 \<and> y1 - y0 > 20"
    by (auto simp: bounds_def)
qed

text \<open>
  A page with a large drawing, a short line, a small drawing, an image 5 below the large
  drawing and a text block inside it: the large drawing and the image are merged and
  returned; the rest is filtered out.
\<close>

theorem parse_rects_large_only_witness:
  "parse_rects buffered_distance point_union_empty (\<lambda>r. minx r < maxx r \<and> miny r < maxy r)
     \<lparr>get_drawings = [(0, 0, 100, 100), (0, 0, 25, 0.05), (200, 200, 210, 210)],
      get_image_info = [(0, 105, 100, 150)],
      get_text_blocks = [((10, 10, 50, 20), ''Hello world text'')]\<rparr>
     = Some (Inr [(0, 0, 100, 150)]) \<and>
   (100::real) - 0 > 20 \<and> (150::real) - 0 > 20"
  using parse_rects_large_only [of buffered_distance point_union_empty
     "\<lambda>r. minx r < maxx r \<and> miny r < maxy r"
     "\<lparr>get_drawings = [(0, 0, 100, 100), (0, 0, 25, 0.05), (200, 200, 210, 210)],
      get_image_info = [(0, 105, 100, 150)],
      get_text_blocks = [((10, 10, 50, 20), ''Hello world text'')]\<rparr>"]
  by (simp add: parse_rects_def is_large_content_def adsorb_rects_to_rects_def bounds_def
        merge_rects.simps run_simps)

text \<open>
  A page with the same image of zero width and height twice: the first merge raises, and
  so does \<open>_parse_rects\<close>.
\<close>

lemma parse_rects_raises_on_equal_points:
  "parse_rects buffered_distance point_union_empty (\<lambda>r. minx r < maxx r \<and> miny r < maxy r)
     \<lparr>get_drawings = [], get_image_info = [(5, 5, 5, 5), (5, 5, 5, 5)], get_text_blocks = []\<rparr>
     = Some (Inl GEOSException)"
  by (simp add: parse_rects_def merge_rects.simps run_simps)

section \<open>Transcribing the pages\<close>

text \<open>Python's \<open>sub in s\<close>, \<open>s.replace(old, new)\<close> and \<open>s.rfind(sub)\<close> on strings.\<close>

definition occurs_in :: "string \<Rightarrow> string \<Rightarrow> bool" where
  "occurs_in sub s = list_ex (\<lambda>p. take (length sub) (drop p s) = sub) [0..<Suc (length s)]"

fun replace :: "string \<Rightarrow> string \<Rightarrow> string \<Rightarrow> string" where
  "replace old new [] = (if old = [] then new else [])"
| "replace old new (c # cs) =
     (if take (length old) (c # cs) = old
      then new @ replace old new (drop (length old - 1) cs)
      else c # replace old new cs)"

definition rfind :: "string \<Rightarrow> string \<Rightarrow> nat option" where
  "rfind sub s =
     (case filter (\<lambda>p. take (length sub) (drop p s) = sub) (rev [0..<Suc (length s - length sub)]) of
        [] \<Rightarrow> None
      | p # _ \<Rightarrow> Some p)"

definition remove_markdown_backticks :: "string \<Rightarrow> string" where
  "remove_markdown_backticks content =
     (if occurs_in ''```markdown'' content
      then (let content = replace (''```markdown'' @ [CHR 0x0A]) [] content
            in case rfind ''```'' content of
                 None \<Rightarrow> content
               | Some last_backticks_pos \<Rightarrow>
                   take last_backticks_pos content @ drop (last_backticks_pos + 3) content)
      else content)"

text \<open>The decimal digits of a number, as an f-string prints it.\<close>

function str_nat :: "nat \<Rightarrow> string" where
  "str_nat n = (if n < 10 then [''0123456789'' ! n]
                else str_nat (n div 10) @ [''0123456789'' ! (n mod 10)])"
  by pat_completeness auto
termination
  by (relation "measure id") auto

declare str_nat.simps [simp del]

text \<open>
  What \<open>client.chat.completions.create\<close> does for a page: it raises (with the text of the
  exception), or returns a response whose \<open>choices\<close> is \<open>None\<close> or a list of choices, each
  with its \<open>message.content\<close>, a string or \<open>None\<close>.
\<close>

datatype api_outcome = Raises string | Response "string option list option"

type_synonym image_info = "string \<times> string list"

text \<open>
  \<open>_process_page\<close>. The prompts and the image only enter the call, whose outcome is given.
\<close>

definition process_page :: "api_outcome \<Rightarrow> nat \<Rightarrow> image_info \<Rightarrow> nat \<times> string option" where
  "process_page outcome index image_info =
     (case outcome of
        Raises e \<Rightarrow> (index, Some (''Error processing page '' @ str_nat (index + 1) @ '': '' @ e))
      | Response choices \<Rightarrow>
          (case choices of
             None \<Rightarrow> (index, Some (''Error: Empty choices in API response for page '' @ str_nat (index + 1)))
           | Some [] \<Rightarrow> (index, Some (''Error: Empty choices in API response for page '' @ str_nat (index + 1)))
           | Some (content # _) \<Rightarrow> (index, content)))"

text \<open>
  The loop over \<open>as_completed(futures)\<close>: the futures arrive in the order \<open>completed\<close> of
  their page indices. \<open>_remove_markdown_backticks\<close> raises TypeError on \<open>None\<close>.
\<close>

fun collect ::
  "(nat \<Rightarrow> api_outcome) \<Rightarrow> image_info list \<Rightarrow> nat list \<Rightarrow> string option list
     \<Rightarrow> py_error + string option list" where
  "collect api image_infos [] contents = Inr contents"
| "collect api image_infos (i # completed) contents =
     (case process_page (api i) i (image_infos ! i) of
        (index, None) \<Rightarrow> Inl TypeError
      | (index, Some content) \<Rightarrow>
          collect api image_infos completed
            (contents[index := Some (remove_markdown_backticks content)]))"

fun join :: "string \<Rightarrow> string list \<Rightarrow> string" where
  "join sep [] = []"
| "join sep [x] = x"
| "join sep (x # y # ys) = x @ sep @ join sep (y # ys)"

fun those_str :: "string option list \<Rightarrow> py_error + string list" where
  "those_str [] = Inr []"
| "those_str (None # xs) = Inl TypeError"
| "those_str (Some x # xs) = (case those_str xs of Inl e \<Rightarrow> Inl e | Inr ys \<Rightarrow> Inr (x # ys))"

text \<open>
  \<open>parse_pdf\<close> from \<open>contents = [None] * len(image_infos)\<close> on, without the files it writes
  and deletes. \<open>ThreadPoolExecutor\<close> raises ValueError for \<open>max_workers <= 0\<close>;
  \<open>'\n\n'.join\<close> raises TypeError on a slot that is still \<open>None\<close>.
\<close>

definition parse_pdf ::
  "int \<Rightarrow> image_info list \<Rightarrow> (nat \<Rightarrow> api_outcome) \<Rightarrow> nat list \<Rightarrow> py_error + string \<times> string list" where
  "parse_pdf gpt_worker image_infos api completed =
     (if gpt_worker \<le> 0 then Inl ValueError
      else case collect api image_infos completed (replicate (length image_infos) None) of
             Inl e \<Rightarrow> Inl e
           | Inr contents \<Rightarrow>
               (case those_str contents of
                  Inl e \<Rightarrow> Inl e
                | Inr strs \<Rightarrow> Inr (join [CHR 0x0A, CHR 0x0A] strs, concat (map snd image_infos))))"

text \<open>
  The content of page \<open>i\<close> as it is stored in its slot; \<open>None\<close> when the page has none.
\<close>

definition page_content :: "(nat \<Rightarrow> api_outcome) \<Rightarrow> image_info list \<Rightarrow> nat \<Rightarrow> string option" where
  "page_content api image_infos i =
     map_option remove_markdown_backticks (snd (process_page (api i) i (image_infos ! i)))"

lemma process_page_index: "fst (process_page outcome i info) = i"
  by (simp add: process_page_def split: api_outcome.splits option.splits list.splits)

lemma collect_result:
  "collect api infos completed contents =
     (if \<exists>i\<in>set completed. page_content api infos i = None then Inl TypeError
      else Inr (map (\<lambda>j. if j \<in> set completed then page_content api infos j else contents ! j)
                  [0..<length contents]))"
proof (induction completed arbitrary: contents)
  case Nil
  then show ?case by (simp add: map_nth)
next
  case (Cons i completed)
  obtain idx c where p: "process_page (api i) i (infos ! i) = (idx, c)"
    by (cases "process_page (api i) i (infos ! i)") auto
  with process_page_index [of "api i" i "infos ! i"] have idx: "idx = i" by simp
  show ?case
  proof (cases c)
    case None
    with p show ?thesis by (simp add: page_content_def)
  next
    case (Some s)
    with p idx have pc: "page_content api infos i = Some (remove_markdown_backticks s)"
      by (simp add: page_content_def)
    have "map (\<lambda>j. if j \<in> set completed then page_content api infos j
                    else contents[i := Some (remove_markdown_backticks s)] ! j) [0..<length contents]
        = map (\<lambda>j. if j \<in> set (i # completed) then page_content api infos j else contents ! j)
            [0..<length contents]"
      by (rule map_cong) (auto simp: pc nth_list_update)
    with p idx Some pc show ?thesis by (simp add: Cons.IH)
  qed
qed

lemma those_str_None:
  "\<exists>x\<in>set xs. x = None \<Longrightarrow> those_str xs = Inl TypeError"
  by (induction xs rule: those_str.induct) (auto split: sum.splits)

lemma parse_pdf_result:
  assumes "set completed = {..<length image_infos}"
  shows "parse_pdf gpt_worker image_infos api completed =
     (if gpt_worker \<le> 0 then Inl ValueError
      else case those_str (map (page_content api image_infos) [0..<length image_infos]) of
             Inl e \<Rightarrow> Inl e
           | Inr strs \<Rightarrow> Inr (join [CHR 0x0A, CHR 0x0A] strs, concat (map snd image_infos)))"
proof (cases "\<exists>i\<in>set completed. page_content api image_infos i = None")
  case True
  then obtain i where i: "i \<in> set completed" "page_content api image_infos i = None" by blast
  with assms have "i < length image_infos" by simp
  then have "page_content api image_infos i
               \<in> set (map (page_content api image_infos) [0..<length image_infos])" by simp
  with i have "\<exists>x\<in>set (map (page_content api image_infos) [0..<length image_infos]). x = None"
    by metis
  from those_str_None [OF this] True show ?thesis
    by (simp add: parse_pdf_def collect_result)
next
  case False
  have "map (\<lambda>j. if j \<in> set completed then page_content api image_infos j
                  else replicate (length image_infos) None ! j) [0..<length image_infos]
        = map (page_content api image_infos) [0..<length image_infos]"
    by (rule map_cong) (auto simp: assms)
  with False have "collect api image_infos completed (replicate (length image_infos) None)
      = Inr (map (page_content api image_infos) [0..<length image_infos])"
    by (simp only: collect_result length_replicate if_False)
  then show ?thesis
    by (simp add: parse_pdf_def)
qed

text \<open>
  C9: when every task completes, in whatever order, \<open>parse_pdf\<close> returns the contents of the
  pages joined in page order, for every pool size for which it returns anything; two
  completion orders give the same result.
\<close>

theorem parse_pdf_page_order:
  assumes "set completed = {..<length image_infos}"
    and "set completed' = {..<length image_infos}"
  shows "parse_pdf gpt_worker image_infos api completed =
     (if gpt_worker \<le> 0 then Inl ValueError
      else case those_str (map (page_content api image_infos) [0..<length image_infos]) of
             Inl e \<Rightarrow> Inl e
           | Inr strs \<Rightarrow> Inr (join [CHR 0x0A, CHR 0x0A] strs, concat (map snd image_infos))) \<and>
     parse_pdf gpt_worker image_infos api completed
       = parse_pdf gpt_worker image_infos api completed'"
  using parse_pdf_result [OF assms(1)] parse_pdf_result [OF assms(2)] by simp

lemmas pdf_simps = parse_pdf_def process_page_def page_content_def remove_markdown_backticks_def
  occurs_in_def rfind_def str_nat.simps

theorem parse_pdf_page_order_witness:
  "parse_pdf 2 [(''0.png'', [''0_0.png'']), (''1.png'', []), (''2.png'', [])]
     (\<lambda>i. if i = 0 then Response (Some [Some ''A''])
          else if i = 1 then Raises ''timeout'' else Response None)
     [2, 0, 1]
   = Inr (''A'' @ [CHR 0x0A, CHR 0x0A] @ ''Error processing page 2: timeout''
            @ [CHR 0x0A, CHR 0x0A] @ ''Error: Empty choices in API response for page 3'',
          [''0_0.png''])"
proof -
  have s: "set [2, 0, 1] = {..<length [(''0.png'', [''0_0.png'']), (''1.png'', []), (''2.png'', [])]}"
    by auto
  from parse_pdf_page_order [OF s s, of 2
      "\<lambda>i. if i = 0 then Response (Some [Some ''A''])
          else if i = 1 then Raises ''timeout'' else Response None"]
  show ?thesis
    by (simp add: pdf_simps upt_rec)
qed

text \<open>
  C8: a page whose response is malformed yields an error text in place of its content and
  the batch goes on. A response with a choice whose content is \<open>None\<close> is returned as it
  is, and the batch stops with a TypeError.
\<close>

theorem process_page_none_content_aborts:
  "process_page (Response (Some [None])) 0 (''0.png'', []) = (0, None) \<and>
   parse_pdf 1 [(''0.png'', [])] (\<lambda>i. Response (Some [None])) [0] = Inl TypeError"
  by (simp add: parse_pdf_def process_page_def)

text \<open>The two failures the code turns into text, and that the two texts differ.\<close>

lemma process_page_failures:
  "process_page (Raises e) index info
     = (index, Some (''Error processing page '' @ str_nat (index + 1) @ '': '' @ e))"
  "process_page (Response None) index info
     = (index, Some (''Error: Empty choices in API response for page '' @ str_nat (index + 1)))"
  "process_page (Response (Some [])) index info
     = (index, Some (''Error: Empty choices in API response for page '' @ str_nat (index + 1)))"
  "''Error processing page '' @ str_nat (i + 1) @ '': '' @ e
     \<noteq> ''Error: Empty choices in API response for page '' @ str_nat (j + 1)"
  by (simp_all add: process_page_def)


end

